theory Spec2Isabelle
  imports Main "HOL-Library.Sublist"
begin

section \<open>Strings\<close>

text \<open>
  A Python \<open>str\<close> is a sequence of Unicode code points; it is modelled as the list of
  the code points' numbers, so that \<open>\s\<close> and \<open>str.strip\<close> can be given their Unicode
  meaning. \<open>str\<close> turns an ASCII literal of the theory into such a string.
\<close>

type_synonym pystr = "nat list"

definition str :: "string \<Rightarrow> pystr" where
  "str s = map of_char s"

text \<open>
  \<open>Py_UNICODE_ISSPACE\<close>: the characters that the regular expression class \<open>\s\<close>
  matches on a \<open>str\<close> pattern and that \<open>str.strip()\<close> removes: U+0009..U+000D,
  U+001C..U+0020, U+0085, U+00A0, U+1680, U+2000..U+200A, U+2028, U+2029, U+202F, U+205F
  and U+3000.
\<close>

definition is_space :: "nat \<Rightarrow> bool" where
  "is_space c \<longleftrightarrow>
     (9 \<le> c \<and> c \<le> 13) \<or> (28 \<le> c \<and> c \<le> 32) \<or> c = 133 \<or> c = 160 \<or> c = 5760 \<or>
     (8192 \<le> c \<and> c \<le> 8202) \<or> c = 8232 \<or> c = 8233 \<or> c = 8239 \<or> c = 8287 \<or> c = 12288"

text \<open>The character class \<open>[,.:;?_!"()\']\<close> of the pattern, in the pattern's order.\<close>

definition is_punct :: "nat \<Rightarrow> bool" where
  "is_punct c \<longleftrightarrow> c \<in> set [44, 46, 58, 59, 63, 95, 33, 34, 40, 41, 39]"

text \<open>\<open>str.strip()\<close> with no argument: leading and trailing whitespace removed.\<close>

definition strip :: "pystr \<Rightarrow> pystr" where
  "strip s = rev (dropWhile is_space (rev (dropWhile is_space s)))"

section \<open>The segmenter\<close>

text \<open>
  \<open>re.split(r'([,.:;?_!"()\']|--|\s)', text)\<close>. The pattern never matches the empty
  string; the scan goes left to right, and at each position tries the character class,
  then the two hyphens (code point 45), then \<open>\s\<close>. As the pattern is one capturing
  group, the result alternates the text between two matches and the matched delimiter;
  \<open>cur\<close> is the text read since the last match.
\<close>

fun re_split :: "pystr \<Rightarrow> pystr \<Rightarrow> pystr list" where
  "re_split cur [] = [cur]"
| "re_split cur [c] =
     (if is_punct c then [cur, [c], []]
      else if is_space c then [cur, [c], []]
      else [cur @ [c]])"
| "re_split cur (c # d # cs) =
     (if is_punct c then cur # [c] # re_split [] (d # cs)
      else if c = 45 \<and> d = 45 then cur # [45, 45] # re_split [] cs
      else if is_space c then cur # [c] # re_split [] (d # cs)
      else re_split (cur @ [c]) (d # cs))"

text \<open>
  Lines 99 to 101 of \<open>BasicTokenizer.encode\<close>:
  \<open>[item.strip() for item in re.split(..., text) if item.strip()]\<close>.
\<close>

definition text_tokens :: "pystr \<Rightarrow> pystr list" where
  "text_tokens text = map strip (filter (\<lambda>item. strip item \<noteq> []) (re_split [] text))"

section \<open>The local tokenizer\<close>

text \<open>
  The fields of a \<open>BasicTokenizer\<close> that change: the vocabulary list and the two
  dictionaries. Token ids are Python integers. \<open>vocab_file\<close> and \<open>special_tokens\<close>
  are the same for every instance and are constants here.
\<close>

record BasicTokenizer =
  vocab :: "pystr list"
  token_to_id :: "pystr \<rightharpoonup> int"
  id_to_token :: "int \<rightharpoonup> pystr"

datatype error = KeyError pystr | ValueError pystr | ChrError int | AdapterError pystr

text \<open>
  The vocabulary file \<open>./data/vocabulary/basictokenizer_vocab.json\<close>: \<open>None\<close> when
  the path does not exist, otherwise the JSON array of strings the file holds.
  \<open>json.dump\<close> and \<open>json.load\<close> belong to Python's library and are taken to write
  and read back that array; the JSON text itself is not modelled, and neither are
  failures of the file system.
\<close>

type_synonym fs = "pystr list option"

text \<open>The two markers and the text that \<open>decode\<close> puts for an id without a token.\<close>

definition BOS :: pystr where
  "BOS = str ''<|BOS|>''"

definition EOS :: pystr where
  "EOS = str ''<|EOS|>''"

definition UNK :: pystr where
  "UNK = str ''[UNK]''"

text \<open>The dictionary \<open>special_tokens\<close>, in its insertion order.\<close>

definition special_tokens :: "(pystr \<times> pystr) list" where
  "special_tokens =
     [(str ''<|BOS|>'', str ''Beginning of Sequence''),
      (str ''<|EOS|>'', str ''End of Sequence'')]"

definition empty_tokenizer :: BasicTokenizer where
  "empty_tokenizer = \<lparr>vocab = [], token_to_id = Map.empty, id_to_token = Map.empty\<rparr>"

text \<open>
  The three statements that add a token, the same in \<open>__init__\<close> (lines 78 to 80)
  and in \<open>encode\<close> (lines 112 to 114): append, then use \<open>len(self.vocab) - 1\<close>.
\<close>

definition append_token :: "BasicTokenizer \<Rightarrow> pystr \<Rightarrow> BasicTokenizer" where
  "append_token t token =
     (let v = vocab t @ [token]; k = int (length v) - 1
      in \<lparr>vocab = v, token_to_id = (token_to_id t)(token \<mapsto> k),
          id_to_token = (id_to_token t)(k \<mapsto> token)\<rparr>)"

text \<open>\<open>enumerate(self.vocab)\<close> and the two dictionary comprehensions of line 73 and 74:
  a later pair overwrites an earlier one with the same key.\<close>

definition enumerate_py :: "pystr list \<Rightarrow> (int \<times> pystr) list" where
  "enumerate_py v = zip (map int [0..<length v]) v"

definition token_to_id_of :: "pystr list \<Rightarrow> (pystr \<rightharpoonup> int)" where
  "token_to_id_of v = fold (\<lambda>(idx, token) d. d(token \<mapsto> idx)) (enumerate_py v) Map.empty"

definition id_to_token_of :: "pystr list \<Rightarrow> (int \<rightharpoonup> pystr)" where
  "id_to_token_of v = fold (\<lambda>(idx, token) d. d(idx \<mapsto> token)) (enumerate_py v) Map.empty"

definition save_vocab :: "BasicTokenizer \<Rightarrow> fs" where
  "save_vocab t = Some (vocab t)"

text \<open>
  \<open>BasicTokenizer()\<close>: the new instance and the file afterwards. (The call of
  \<open>os.makedirs\<close> creates the directory only and leaves the file as it is.)
\<close>

definition init :: "fs \<Rightarrow> BasicTokenizer \<times> fs" where
  "init f =
     (case f of
        Some content \<Rightarrow>
          (\<lparr>vocab = content, token_to_id = token_to_id_of content,
            id_to_token = id_to_token_of content\<rparr>, f)
      | None \<Rightarrow>
          (let t = foldl append_token empty_tokenizer (map fst special_tokens)
           in (t, save_vocab t)))"

text \<open>
  The loop of lines 110 to 116. The subscript \<open>self.token_to_id[token]\<close> raises
  \<open>KeyError\<close> on a missing key.
\<close>

fun encode_loop ::
  "pystr list \<Rightarrow> BasicTokenizer \<Rightarrow> int list \<Rightarrow> pystr list \<Rightarrow>
   error + (BasicTokenizer \<times> int list \<times> pystr list)" where
  "encode_loop [] t token_ids new_tokens = Inr (t, token_ids, new_tokens)"
| "encode_loop (token # rest) t token_ids new_tokens =
     (let (t1, new1) =
        (if token \<notin> dom (token_to_id t)
         then (append_token t token, new_tokens @ [token])
         else (t, new_tokens))
      in case token_to_id t1 token of
           None \<Rightarrow> Inl (KeyError token)
         | Some i \<Rightarrow> encode_loop rest t1 (token_ids @ [i]) new1)"

text \<open>The list \<open>tokens\<close> of \<open>encode\<close>: the text's pieces between the two markers.\<close>

definition framed :: "pystr \<Rightarrow> pystr list" where
  "framed text = [str ''<|BOS|>''] @ text_tokens text @ [str ''<|EOS|>'']"

text \<open>
  \<open>encode(text, vocab_update)\<close> on the instance \<open>t\<close> with the file \<open>f\<close>: the ids
  returned, the instance and the file afterwards. The flag is called \<open>update\<close> here
  (the record package owns the name \<open>vocab_update\<close>).
\<close>

definition encode ::
  "BasicTokenizer \<Rightarrow> fs \<Rightarrow> pystr \<Rightarrow> bool \<Rightarrow> error + (int list \<times> BasicTokenizer \<times> fs)" where
  "encode t f text update =
     (case encode_loop (framed text) t [] [] of
        Inl e \<Rightarrow> Inl e
      | Inr (t', token_ids, new_tokens) \<Rightarrow>
          Inr (token_ids, t',
               if update \<and> new_tokens \<noteq> [] then save_vocab t' else f))"

text \<open>\<open>decode(token_ids)\<close> reads \<open>id_to_token\<close> with \<open>dict.get\<close> and assigns nothing.\<close>

definition decode :: "BasicTokenizer \<Rightarrow> int list \<Rightarrow> pystr" where
  "decode t token_ids =
     concat (map (\<lambda>token_id. case id_to_token t token_id of
                                Some token \<Rightarrow> token
                              | None \<Rightarrow> str ''[UNK]'') token_ids)"

section \<open>The registry\<close>

text \<open>
  The dictionary \<open>TOKENIZERS\<close>, in its order. Each entry's two lambdas build their
  tokenizer anew at every call; an entry is named here by the library and the model it
  loads. Only \<open>B\<close> and \<open>CHAR\<close> are code of this repository.
\<close>

datatype strategy =
  Basic
  | Tiktoken pystr
  | HFTokenizers pystr
  | Transformers pystr
  | SentencePiece pystr
  | CharCodes

definition TOKENIZERS :: "(pystr \<times> strategy) list" where
  "TOKENIZERS =
     [(str ''B'', Basic),
      (str ''TIKTOKEN'', Tiktoken (str ''cl100k_base'')),
      (str ''BPE'', HFTokenizers (str ''gpt2'')),
      (str ''WP'', Transformers (str ''bert-base-uncased'')),
      (str ''SP'', SentencePiece (str ''spm.model'')),
      (str ''ULM'', SentencePiece (str ''ulm.model'')),
      (str ''BL-BPE'', HFTokenizers (str ''gpt2'')),
      (str ''CHAR'', CharCodes),
      (str ''T5'', Transformers (str ''t5-small''))]"

text \<open>
  The third-party tokenizers are parameters: what each returns for a text or for a list
  of ids, or the message of the exception it raises.
\<close>

record adapters =
  ext_encode :: "strategy \<Rightarrow> pystr \<Rightarrow> pystr + int list"
  ext_decode :: "strategy \<Rightarrow> int list \<Rightarrow> pystr + pystr"

text \<open>
  The message of the \<open>ValueError\<close> of \<open>encode_text\<close> and \<open>decode_text\<close>:
  \<open>list(TOKENIZERS.keys())\<close> is printed as a Python list of quoted names (code point 39
  is the quote).
\<close>

definition keys_repr :: pystr where
  "keys_repr =
     str ''['' @
     foldr (\<lambda>k r. [39] @ k @ [39] @ (if r = [] then [] else str '', '' @ r))
       (map fst TOKENIZERS) [] @
     str '']''"

definition unknown_msg :: "pystr \<Rightarrow> pystr" where
  "unknown_msg tokenizer_type =
     str ''Unknown tokenizer type: '' @ tokenizer_type @ str ''. Available options: '' @ keys_repr"

text \<open>
  The \<open>encode\<close> lambda of an entry: the result or the exception, and the vocabulary file
  afterwards. \<open>B\<close> constructs a \<open>BasicTokenizer\<close> and calls \<open>encode\<close> with the
  default \<open>vocab_update=True\<close>; \<open>CHAR\<close> is \<open>[ord(char) for char in text]\<close>.
\<close>

fun encode_func :: "adapters \<Rightarrow> strategy \<Rightarrow> fs \<Rightarrow> pystr \<Rightarrow> (error + int list) \<times> fs" where
  "encode_func x Basic f text =
     (let (t, f1) = init f
      in case encode t f1 text True of
           Inl e \<Rightarrow> (Inl e, f1)
         | Inr (token_ids, t', f2) \<Rightarrow> (Inr token_ids, f2))"
| "encode_func x CharCodes f text = (Inr (map int text), f)"
| "encode_func x s f text =
     (case ext_encode x s text of
        Inl m \<Rightarrow> (Inl (AdapterError m), f)
      | Inr token_ids \<Rightarrow> (Inr token_ids, f))"

text \<open>
  The \<open>decode\<close> lambda of an entry. For \<open>CHAR\<close>, \<open>chr\<close> raises on the first id that
  is no code point (a \<open>ValueError\<close> or an \<open>OverflowError\<close>, by the size of the id).
\<close>

fun chr_all :: "int list \<Rightarrow> error + pystr" where
  "chr_all [] = Inr []"
| "chr_all (i # token_ids) =
     (if 0 \<le> i \<and> i < 1114112
      then (case chr_all token_ids of Inl e \<Rightarrow> Inl e | Inr s \<Rightarrow> Inr (nat i # s))
      else Inl (ChrError i))"

fun decode_func :: "adapters \<Rightarrow> strategy \<Rightarrow> fs \<Rightarrow> int list \<Rightarrow> (error + pystr) \<times> fs" where
  "decode_func x Basic f token_ids =
     (let (t, f1) = init f in (Inr (decode t token_ids), f1))"
| "decode_func x CharCodes f token_ids = (chr_all token_ids, f)"
| "decode_func x s f token_ids =
     (case ext_decode x s token_ids of
        Inl m \<Rightarrow> (Inl (AdapterError m), f)
      | Inr text \<Rightarrow> (Inr text, f))"

definition encode_text :: "adapters \<Rightarrow> fs \<Rightarrow> pystr \<Rightarrow> pystr \<Rightarrow> (error + int list) \<times> fs" where
  "encode_text x f text tokenizer_type =
     (case map_of TOKENIZERS tokenizer_type of
        None \<Rightarrow> (Inl (ValueError (unknown_msg tokenizer_type)), f)
      | Some s \<Rightarrow> encode_func x s f text)"

definition decode_text :: "adapters \<Rightarrow> fs \<Rightarrow> int list \<Rightarrow> pystr \<Rightarrow> (error + pystr) \<times> fs" where
  "decode_text x f token_ids tokenizer_type =
     (case map_of TOKENIZERS tokenizer_type of
        None \<Rightarrow> (Inl (ValueError (unknown_msg tokenizer_type)), f)
      | Some s \<Rightarrow> decode_func x s f token_ids)"

subsection \<open>The command line of \<open>do_tokenize.py\<close>\<close>




section \<open>A process that uses the local tokenizer\<close>

text \<open>
  One process holds one instance at a time and the vocabulary file. A call constructs a
  new instance in place of the current one (as each lambda of \<open>B\<close> does before its
  call), or encodes or decodes on the current instance. \<open>run\<close> gives the instance and
  the file at the end, and the log of each token that was encoded with the id returned
  for it, in order.
\<close>

datatype call = Construct | Encode pystr bool | Decode "int list"

fun run ::
  "call list \<Rightarrow> BasicTokenizer \<times> fs \<Rightarrow> error + (BasicTokenizer \<times> fs \<times> (pystr \<times> int) list)" where
  "run [] (t, f) = Inr (t, f, [])"
| "run (Construct # calls) (t, f) = run calls (init f)"
| "run (Decode token_ids # calls) (t, f) = run calls (t, f)"
| "run (Encode text update # calls) (t, f) =
     (case encode t f text update of
        Inl e \<Rightarrow> Inl e
      | Inr (token_ids, t', f') \<Rightarrow>
          (case run calls (t', f') of
             Inl e \<Rightarrow> Inl e
           | Inr (t'', f'', log) \<Rightarrow> Inr (t'', f'', zip (framed text) token_ids @ log)))"

section \<open>Invariants and predicates of the statements\<close>

text \<open>
  An instance is in step with its list when its two dictionaries are the ones that
  \<open>__init__\<close> would build from the list.
\<close>

definition in_sync :: "BasicTokenizer \<Rightarrow> bool" where
  "in_sync t \<longleftrightarrow>
     token_to_id t = token_to_id_of (vocab t) \<and> id_to_token t = id_to_token_of (vocab t)"

text \<open>
  The invariant of the vocabulary: the token at index \<open>i\<close> has id \<open>i\<close>, the tokens
  with an id are those of the list, the ids are \<open>0\<close> to \<open>len - 1\<close>, no token is
  listed twice, and \<open>id_to_token\<close> is the list read by index.
\<close>

definition vocabulary_invariant :: "BasicTokenizer \<Rightarrow> bool" where
  "vocabulary_invariant t \<longleftrightarrow>
     (\<forall>i<length (vocab t). token_to_id t (vocab t ! i) = Some (int i)) \<and>
     dom (token_to_id t) = set (vocab t) \<and>
     ran (token_to_id t) = int ` {0..<length (vocab t)} \<and>
     distinct (vocab t) \<and>
     (\<forall>k. id_to_token t k =
        (if 0 \<le> k \<and> k < int (length (vocab t)) then Some (vocab t ! nat k) else None))"

text \<open>A vocabulary file as the tokenizer writes it: absent, or without a repeated token.\<close>

definition fs_wf :: "fs \<Rightarrow> bool" where
  "fs_wf f = (case f of None \<Rightarrow> True | Some content \<Rightarrow> distinct content)"

text \<open>Calls that pass \<open>vocab_update=True\<close> where they encode; runs of one instance.\<close>

fun updating :: "call \<Rightarrow> bool" where
  "updating (Encode text update) = update"
| "updating c = True"

definition one_instance :: "call list \<Rightarrow> bool" where
  "one_instance calls \<longleftrightarrow> Construct \<notin> set calls"

definition always_update :: "call list \<Rightarrow> bool" where
  "always_update calls \<longleftrightarrow> list_all updating calls"

text \<open>
  A piece that is no delimiter: no character of the class, no whitespace, and no two
  hyphens in a row.
\<close>

definition plain :: "pystr \<Rightarrow> bool" where
  "plain p \<longleftrightarrow> (\<forall>c\<in>set p. \<not> is_punct c \<and> \<not> is_space c) \<and> \<not> sublist [45, 45] p"

text \<open>
  What the spec says of the segmenter, as equations for a function \<open>g\<close> from texts to
  pieces: the empty text has no piece; a non-empty text without a delimiter is one piece;
  at a character of the class the text is cut and the character is a piece of its own; at
  a whitespace character the text is cut and nothing is kept; at two hyphens that do not
  follow a hyphen the text is cut and the two hyphens are a piece of their own.
\<close>

definition cuts_at_delimiters :: "(pystr \<Rightarrow> pystr list) \<Rightarrow> bool" where
  "cuts_at_delimiters g \<longleftrightarrow>
     g [] = [] \<and>
     (\<forall>r. plain r \<and> r \<noteq> [] \<longrightarrow> g r = [r]) \<and>
     (\<forall>u c v. is_punct c \<longrightarrow> g (u @ c # v) = g u @ [c] # g v) \<and>
     (\<forall>u c v. is_space c \<longrightarrow> g (u @ c # v) = g u @ g v) \<and>
     (\<forall>u v. u = [] \<or> last u \<noteq> 45 \<longrightarrow> g (u @ 45 # 45 # v) = g u @ [45, 45] # g v)"


text \<open>Third-party tokenizers that are not installed: every call of one raises.\<close>

definition offline :: adapters where
  "offline =
     \<lparr>ext_encode = (\<lambda>s body. Inl (str ''not installed'')),
      ext_decode = (\<lambda>s token_ids. Inl (str ''not installed''))\<rparr>"

section \<open>The dictionaries built from a list\<close>

lemma enumerate_py_snoc:
  "enumerate_py (v @ [token]) = enumerate_py v @ [(int (length v), token)]"
  by (simp add: enumerate_py_def)

lemma token_to_id_of_Nil [simp]: "token_to_id_of [] = Map.empty"
  by (simp add: token_to_id_of_def enumerate_py_def)

lemma id_to_token_of_Nil [simp]: "id_to_token_of [] = Map.empty"
  by (simp add: id_to_token_of_def enumerate_py_def)

lemma token_to_id_of_snoc:
  "token_to_id_of (v @ [token]) = (token_to_id_of v)(token \<mapsto> int (length v))"
  by (simp add: token_to_id_of_def enumerate_py_snoc)

lemma id_to_token_of_snoc:
  "id_to_token_of (v @ [token]) = (id_to_token_of v)(int (length v) \<mapsto> token)"
  by (simp add: id_to_token_of_def enumerate_py_snoc)

lemma id_to_token_of_eq:
  "id_to_token_of v k = (if 0 \<le> k \<and> k < int (length v) then Some (v ! nat k) else None)"
proof (induction v rule: rev_induct)
  case Nil
  show ?case by simp
next
  case (snoc token v)
  show ?case
    by (auto simp: id_to_token_of_snoc snoc.IH nth_append)
qed

lemma dom_token_to_id_of: "dom (token_to_id_of v) = set v"
proof (induction v rule: rev_induct)
  case Nil
  show ?case by simp
next
  case (snoc a v)
  have "dom (token_to_id_of (v @ [a])) = insert a (dom (token_to_id_of v))"
    by (simp add: token_to_id_of_snoc)
  with snoc show ?case by simp
qed

lemma token_to_id_of_Some:
  "token_to_id_of v token = Some i \<Longrightarrow> 0 \<le> i \<and> i < int (length v) \<and> v ! nat i = token"
proof (induction v rule: rev_induct)
  case Nil
  then show ?case by simp
next
  case (snoc a v)
  then show ?case
    by (auto simp: token_to_id_of_snoc nth_append split: if_splits)
qed

lemma token_to_id_of_nth:
  "distinct v \<Longrightarrow> i < length v \<Longrightarrow> token_to_id_of v (v ! i) = Some (int i)"
proof (induction v rule: rev_induct)
  case Nil
  then show ?case by simp
next
  case (snoc a v)
  then show ?case
    by (auto simp: token_to_id_of_snoc nth_append less_Suc_eq)
qed

lemma in_sync_append_token: "in_sync t \<Longrightarrow> in_sync (append_token t token)"
  by (simp add: in_sync_def append_token_def Let_def token_to_id_of_snoc id_to_token_of_snoc)

lemma in_sync_empty: "in_sync empty_tokenizer"
  by (simp add: in_sync_def empty_tokenizer_def)

lemma vocab_append_token: "vocab (append_token t token) = vocab t @ [token]"
  by (simp add: append_token_def Let_def)

lemma init_None:
  "init None = (foldl append_token empty_tokenizer [BOS, EOS], Some [BOS, EOS])"
  by (simp add: init_def special_tokens_def BOS_def EOS_def Let_def save_vocab_def
      vocab_append_token empty_tokenizer_def)

lemma in_sync_init: "in_sync (fst (init f))"
proof (cases f)
  case None
  then show ?thesis
    by (simp add: init_None in_sync_append_token in_sync_empty)
next
  case (Some v)
  then show ?thesis by (simp add: init_def in_sync_def)
qed

lemma file_init: "snd (init f) = Some (vocab (fst (init f)))"
  by (cases f) (simp_all add: init_def Let_def save_vocab_def)

lemma init_in_sync: "in_sync t \<Longrightarrow> init (Some (vocab t)) = (t, Some (vocab t))"
  by (simp add: init_def in_sync_def)

section \<open>The loop of encode\<close>

lemma token_to_id_append_new:
  "token \<notin> dom (token_to_id t) \<Longrightarrow> token_to_id t \<subseteq>\<^sub>m token_to_id (append_token t token)"
  by (auto simp: append_token_def Let_def map_le_def)

lemma token_to_id_append_token:
  "token_to_id (append_token t token) token = Some (int (length (vocab t)))"
  by (simp add: append_token_def Let_def)

lemma in_sync_dom: "in_sync t \<Longrightarrow> dom (token_to_id t) = set (vocab t)"
  by (simp add: in_sync_def dom_token_to_id_of)

lemma encode_loop_sync:
  "in_sync t \<Longrightarrow>
   \<exists>t' js added.
     encode_loop toks t ids new = Inr (t', ids @ js, new @ added) \<and>
     in_sync t' \<and> vocab t' = vocab t @ added \<and>
     token_to_id t \<subseteq>\<^sub>m token_to_id t' \<and>
     list_all2 (\<lambda>token i. token_to_id t' token = Some i) toks js \<and>
     set added = set toks - set (vocab t) \<and> distinct added"
proof (induction toks arbitrary: t ids new)
  case Nil
  then show ?case by simp
next
  case (Cons token rest)
  show ?case
  proof (cases "token \<in> dom (token_to_id t)")
    case True
    then obtain i where i: "token_to_id t token = Some i" by auto
    from Cons.IH [OF Cons.prems, of "ids @ [i]" new]
    obtain t' js added where
      run: "encode_loop rest t (ids @ [i]) new = Inr (t', (ids @ [i]) @ js, new @ added)"
      and sync: "in_sync t'" and v: "vocab t' = vocab t @ added"
      and le: "token_to_id t \<subseteq>\<^sub>m token_to_id t'"
      and all2: "list_all2 (\<lambda>token i. token_to_id t' token = Some i) rest js"
      and added: "set added = set rest - set (vocab t)" and dist: "distinct added"
      by blast
    have tok: "token_to_id t' token = Some i"
      using le i True by (auto simp: map_le_def dom_def)
    have "token \<in> set (vocab t)"
      using True Cons.prems by (simp add: in_sync_dom)
    then have added': "set added = set (token # rest) - set (vocab t)"
      using added by auto
    have "encode_loop (token # rest) t ids new = Inr (t', ids @ (i # js), new @ added)"
      using True i run by simp
    then show ?thesis
      using sync v le all2 tok added' dist
      by (intro exI [of _ t'] exI [of _ "i # js"] exI [of _ added]) simp
  next
    case False
    let ?t1 = "append_token t token"
    let ?i = "int (length (vocab t))"
    have sync1: "in_sync ?t1"
      using Cons.prems by (rule in_sync_append_token)
    have notin: "token \<notin> set (vocab t)"
      using False Cons.prems by (simp add: in_sync_dom)
    from Cons.IH [OF sync1, of "ids @ [?i]" "new @ [token]"]
    obtain t' js added where
      run: "encode_loop rest ?t1 (ids @ [?i]) (new @ [token]) =
              Inr (t', (ids @ [?i]) @ js, (new @ [token]) @ added)"
      and sync: "in_sync t'" and v: "vocab t' = vocab ?t1 @ added"
      and le: "token_to_id ?t1 \<subseteq>\<^sub>m token_to_id t'"
      and all2: "list_all2 (\<lambda>token i. token_to_id t' token = Some i) rest js"
      and added: "set added = set rest - set (vocab ?t1)" and dist: "distinct added"
      by blast
    have tok: "token_to_id t' token = Some ?i"
      using le token_to_id_append_token [of t token] by (auto simp: map_le_def dom_def)
    have le': "token_to_id t \<subseteq>\<^sub>m token_to_id t'"
      using token_to_id_append_new [OF False] le by (rule map_le_trans)
    have v': "vocab t' = vocab t @ (token # added)"
      using v by (simp add: vocab_append_token)
    have added': "set (token # added) = set (token # rest) - set (vocab t)"
      using added notin by (auto simp: vocab_append_token)
    have dist': "distinct (token # added)"
      using added dist by (simp add: vocab_append_token)
    have "encode_loop (token # rest) t ids new = Inr (t', ids @ (?i # js), new @ (token # added))"
      using False run by (simp add: token_to_id_append_token)
    then show ?thesis
      using sync v' le' all2 tok added' dist'
      by (intro exI [of _ t'] exI [of _ "?i # js"] exI [of _ "token # added"]) simp
  qed
qed

lemma encode_sync:
  assumes "in_sync t"
  shows "\<exists>ids t'.
     encode t f text g = Inr (ids, t', if g \<and> vocab t' \<noteq> vocab t then Some (vocab t') else f) \<and>
     in_sync t' \<and> prefix (vocab t) (vocab t') \<and>
     token_to_id t \<subseteq>\<^sub>m token_to_id t' \<and>
     list_all2 (\<lambda>token i. token_to_id t' token = Some i) (framed text) ids \<and>
     set (vocab t') = set (vocab t) \<union> set (framed text) \<and>
     (distinct (vocab t) \<longrightarrow> distinct (vocab t'))"
proof -
  from encode_loop_sync [OF assms, of "framed text" "[]" "[]"]
  obtain t' js added where
    run: "encode_loop (framed text) t [] [] = Inr (t', js, added)"
    and sync: "in_sync t'" and v: "vocab t' = vocab t @ added"
    and le: "token_to_id t \<subseteq>\<^sub>m token_to_id t'"
    and all2: "list_all2 (\<lambda>token i. token_to_id t' token = Some i) (framed text) js"
    and added: "set added = set (framed text) - set (vocab t)" and dist: "distinct added"
    by auto
  have e: "encode t f text g =
      Inr (js, t', if g \<and> vocab t' \<noteq> vocab t then Some (vocab t') else f)"
    using run v by (simp add: encode_def save_vocab_def)
  have p: "prefix (vocab t) (vocab t')"
    using v by simp
  have s: "set (vocab t') = set (vocab t) \<union> set (framed text)"
    using v added by auto
  have d: "distinct (vocab t) \<longrightarrow> distinct (vocab t')"
    using v added dist by auto
  show ?thesis
    using e sync p le all2 s d
    by (intro exI [of _ js] exI [of _ t']) simp
qed

lemma BOS_neq_EOS: "BOS \<noteq> EOS"
  by (simp add: BOS_def EOS_def str_def)

lemma vocab_init_None: "vocab (fst (init None)) = [BOS, EOS]"
  by (simp add: init_None vocab_append_token empty_tokenizer_def)

lemma init_wf:
  "fs_wf f \<Longrightarrow> distinct (vocab (fst (init f))) \<and> fs_wf (snd (init f))"
proof (cases f)
  case None
  then show ?thesis
    using BOS_neq_EOS by (simp add: file_init vocab_init_None fs_wf_def)
next
  case (Some v)
  assume "fs_wf f"
  with Some show ?thesis by (simp add: init_def fs_wf_def)
qed

lemma run_sync:
  "in_sync t \<Longrightarrow>
   \<exists>t' f' log. run calls (t, f) = Inr (t', f', log) \<and> in_sync t' \<and>
     (distinct (vocab t) \<and> fs_wf f \<longrightarrow> distinct (vocab t') \<and> fs_wf f')"
proof (induction calls arbitrary: t f)
  case Nil
  then show ?case by simp
next
  case (Cons c calls)
  show ?case
  proof (cases c)
    case Construct
    obtain t0 f0 where i: "init f = (t0, f0)" by (cases "init f")
    have s0: "in_sync t0" using in_sync_init [of f] i by simp
    have w0: "fs_wf f \<longrightarrow> distinct (vocab t0) \<and> fs_wf f0"
      using init_wf [of f] i by simp
    from Cons.IH [OF s0, of f0] w0 show ?thesis
      using Construct i by auto
  next
    case (Decode token_ids)
    from Cons.IH [OF Cons.prems, of f] show ?thesis
      using Decode by simp
  next
    case (Encode body g)
    from encode_sync [OF Cons.prems, of f body g]
    obtain ids t1 where
      e: "encode t f body g = Inr (ids, t1, if g \<and> vocab t1 \<noteq> vocab t then Some (vocab t1) else f)"
      and s1: "in_sync t1" and d1: "distinct (vocab t) \<longrightarrow> distinct (vocab t1)"
      by auto
    let ?f1 = "if g \<and> vocab t1 \<noteq> vocab t then Some (vocab t1) else f"
    from Cons.IH [OF s1, of ?f1]
    obtain t' f' log where
      r: "run calls (t1, ?f1) = Inr (t', f', log)" and s': "in_sync t'"
      and w': "distinct (vocab t1) \<and> fs_wf ?f1 \<longrightarrow> distinct (vocab t') \<and> fs_wf f'"
      by auto
    have w1: "distinct (vocab t) \<and> fs_wf f \<longrightarrow> distinct (vocab t1) \<and> fs_wf ?f1"
      using d1 by (simp add: fs_wf_def)
    have "run (c # calls) (t, f) = Inr (t', f', zip (framed body) ids @ log)"
      using Encode e r by simp
    then show ?thesis
      using s' w' w1 by auto
  qed
qed

lemma log_le:
  "list_all2 (\<lambda>token i. m token = Some i) toks ids \<Longrightarrow> m \<subseteq>\<^sub>m m' \<Longrightarrow>
   (token, i) \<in> set (zip toks ids) \<Longrightarrow> m' token = Some i"
  by (auto simp: list_all2_conv_all_nth in_set_zip map_le_def dom_def)

lemma run_log:
  "in_sync t \<Longrightarrow> one_instance calls \<or> (f = Some (vocab t) \<and> always_update calls) \<Longrightarrow>
   \<exists>t' f' log. run calls (t, f) = Inr (t', f', log) \<and>
     token_to_id t \<subseteq>\<^sub>m token_to_id t' \<and>
     (\<forall>token i. (token, i) \<in> set log \<longrightarrow> token_to_id t' token = Some i)"
proof (induction calls arbitrary: t f)
  case Nil
  then show ?case by simp
next
  case (Cons c calls)
  show ?case
  proof (cases c)
    case Construct
    with Cons.prems have f: "f = Some (vocab t)" and a: "always_update calls"
      by (auto simp: one_instance_def always_update_def)
    have i: "init f = (t, f)"
      using f Cons.prems(1) by (simp add: init_in_sync)
    from Cons.IH [OF Cons.prems(1), of f] f a show ?thesis
      using Construct i by simp
  next
    case (Decode token_ids)
    with Cons.prems have "one_instance calls \<or> (f = Some (vocab t) \<and> always_update calls)"
      by (auto simp: one_instance_def always_update_def)
    from Cons.IH [OF Cons.prems(1) this] show ?thesis
      using Decode by simp
  next
    case (Encode body g)
    from encode_sync [OF Cons.prems(1), of f body g]
    obtain ids t1 where
      e: "encode t f body g = Inr (ids, t1, if g \<and> vocab t1 \<noteq> vocab t then Some (vocab t1) else f)"
      and s1: "in_sync t1" and le1: "token_to_id t \<subseteq>\<^sub>m token_to_id t1"
      and all2: "list_all2 (\<lambda>token i. token_to_id t1 token = Some i) (framed body) ids"
      by auto
    let ?f1 = "if g \<and> vocab t1 \<noteq> vocab t then Some (vocab t1) else f"
    have "one_instance calls \<or> (?f1 = Some (vocab t1) \<and> always_update calls)"
      using Cons.prems(2) Encode by (auto simp: one_instance_def always_update_def)
    from Cons.IH [OF s1 this]
    obtain t' f' log where
      r: "run calls (t1, ?f1) = Inr (t', f', log)"
      and le': "token_to_id t1 \<subseteq>\<^sub>m token_to_id t'"
      and l': "\<forall>token i. (token, i) \<in> set log \<longrightarrow> token_to_id t' token = Some i"
      by auto
    have r': "run (c # calls) (t, f) = Inr (t', f', zip (framed body) ids @ log)"
      using Encode e r by simp
    have le: "token_to_id t \<subseteq>\<^sub>m token_to_id t'"
      using le1 le' by (rule map_le_trans)
    have "\<forall>token i. (token, i) \<in> set (zip (framed body) ids @ log) \<longrightarrow>
        token_to_id t' token = Some i"
      using l' log_le [OF all2 le'] by auto
    with r' le show ?thesis by simp
  qed
qed

lemma ran_token_to_id_of:
  assumes "distinct v"
  shows "ran (token_to_id_of v) = int ` {0..<length v}"
proof (rule set_eqI)
  fix k
  show "k \<in> ran (token_to_id_of v) \<longleftrightarrow> k \<in> int ` {0..<length v}"
  proof
    assume "k \<in> ran (token_to_id_of v)"
    then obtain token where "token_to_id_of v token = Some k"
      by (auto simp: ran_def)
    from token_to_id_of_Some [OF this] have "0 \<le> k" and "k < int (length v)"
      by simp_all
    then have "k = int (nat k)" and "nat k < length v"
      by simp_all
    then show "k \<in> int ` {0..<length v}"
      by (metis atLeastLessThan_iff image_eqI le0)
  next
    assume "k \<in> int ` {0..<length v}"
    then obtain i where i: "i < length v" and k: "k = int i"
      by auto
    from token_to_id_of_nth [OF assms i] k show "k \<in> ran (token_to_id_of v)"
      by (auto simp: ran_def)
  qed
qed

lemma in_sync_invariant:
  assumes "in_sync t" and "distinct (vocab t)"
  shows "vocabulary_invariant t"
proof -
  from assms(1) have m: "token_to_id t = token_to_id_of (vocab t)"
    and r: "id_to_token t = id_to_token_of (vocab t)"
    by (simp_all add: in_sync_def)
  show ?thesis
    unfolding vocabulary_invariant_def m r
    using assms(2)
    by (simp add: token_to_id_of_nth dom_token_to_id_of ran_token_to_id_of id_to_token_of_eq)
qed

lemma invariant_in_sync:
  assumes "vocabulary_invariant t"
  shows "in_sync t"
proof -
  from assms have nth: "\<And>i. i < length (vocab t) \<Longrightarrow> token_to_id t (vocab t ! i) = Some (int i)"
    and d: "dom (token_to_id t) = set (vocab t)" and dist: "distinct (vocab t)"
    and r: "\<And>k. id_to_token t k =
        (if 0 \<le> k \<and> k < int (length (vocab t)) then Some (vocab t ! nat k) else None)"
    by (simp_all add: vocabulary_invariant_def)
  have "token_to_id t token = token_to_id_of (vocab t) token" for token
  proof (cases "token \<in> set (vocab t)")
    case True
    then obtain i where i: "i < length (vocab t)" and t: "vocab t ! i = token"
      by (auto simp: in_set_conv_nth)
    from nth [OF i] token_to_id_of_nth [OF dist i] t show ?thesis by simp
  next
    case False
    then have "token_to_id t token = None"
      using d by auto
    moreover from False have "token_to_id_of (vocab t) token = None"
      using dom_token_to_id_of [of "vocab t"] by auto
    ultimately show ?thesis by simp
  qed
  then have m: "token_to_id t = token_to_id_of (vocab t)"
    by (rule ext)
  have "id_to_token t = id_to_token_of (vocab t)"
    by (rule ext) (simp add: r id_to_token_of_eq)
  with m show ?thesis by (simp add: in_sync_def)
qed

lemma init_None_invariant: "vocabulary_invariant (fst (init None))"
  using in_sync_init [of None] BOS_neq_EOS
  by (intro in_sync_invariant) (simp_all add: vocab_init_None)

section \<open>Properties of the segmenter\<close>

lemma sublist_append_left: "sublist p ys \<Longrightarrow> sublist p (xs @ ys)"
  by (metis sublist_order.order_trans sublist_append_leftI)

lemma re_split_sublist: "p \<in> set (re_split cur body) \<Longrightarrow> sublist p (cur @ body)"
proof (induction cur body rule: re_split.induct)
  case (1 cur)
  then show ?case by simp
next
  case (2 cur c)
  then show ?case by (auto split: if_splits)
next
  case (3 cur c d cs)
  have c: "sublist [c] (cur @ c # d # cs)"
    using sublist_appendI [of "[c]" cur "d # cs"] by simp
  have h: "sublist [45, 45] (cur @ 45 # 45 # cs)"
    using sublist_appendI [of "[45, 45]" cur cs] by simp
  have r: "sublist p (d # cs) \<Longrightarrow> sublist p (cur @ c # d # cs)" for p
    using sublist_append_left [of p "d # cs" "cur @ [c]"] by simp
  have r2: "sublist p cs \<Longrightarrow> sublist p (cur @ c # d # cs)" for p
    using sublist_append_left [of p "cs" "cur @ [c, d]"] by simp
  from 3 c h r r2 show ?case
    by (auto split: if_splits)
qed

lemma strip_sublist: "sublist (strip s) s"
proof -
  have "sublist (dropWhile is_space (rev (dropWhile is_space s))) (rev (dropWhile is_space s))"
    by simp
  then have "sublist (strip s) (dropWhile is_space s)"
    by (simp add: strip_def sublist_rev_left)
  then show ?thesis
    using sublist_dropWhile sublist_order.order_trans by blast
qed

lemma text_tokens_sublist: "p \<in> set (text_tokens body) \<Longrightarrow> sublist p body"
proof -
  assume "p \<in> set (text_tokens body)"
  then obtain q where q: "q \<in> set (re_split [] body)" and p: "p = strip q"
    by (auto simp: text_tokens_def)
  from re_split_sublist [OF q] have "sublist q body" by simp
  with strip_sublist [of q] p show ?thesis
    using sublist_order.order_trans by blast
qed

lemma dropWhile_none: "\<forall>c\<in>set p. \<not> P c \<Longrightarrow> dropWhile P p = p"
  by (cases p) auto

lemma strip_no_space: "\<forall>c\<in>set p. \<not> is_space c \<Longrightarrow> strip p = p"
proof -
  assume a: "\<forall>c\<in>set p. \<not> is_space c"
  then have "dropWhile is_space p = p"
    by (rule dropWhile_none)
  moreover from a have "dropWhile is_space (rev p) = rev p"
    by (intro dropWhile_none) simp
  ultimately show ?thesis by (simp add: strip_def)
qed

lemma strip_space: "is_space c \<Longrightarrow> strip [c] = []"
  by (simp add: strip_def)

lemma punct_not_space: "is_punct c \<Longrightarrow> \<not> is_space c"
  by (auto simp: is_punct_def is_space_def)

lemma suffix_single: "suffix [a] ys \<longleftrightarrow> ys \<noteq> [] \<and> last ys = a"
proof (cases ys rule: rev_cases)
  case Nil
  then show ?thesis by simp
next
  case (snoc zs z)
  then show ?thesis
    using snoc_suffix_snoc [of "[]" a zs z] by auto
qed

lemma sublist_pair_snoc:
  "sublist [a, b] (ys @ [c]) \<longleftrightarrow> sublist [a, b] ys \<or> (ys \<noteq> [] \<and> last ys = a \<and> c = b)"
proof -
  have "suffix ([a] @ [b]) (ys @ [c]) \<longleftrightarrow> b = c \<and> suffix [a] ys"
    by (rule snoc_suffix_snoc)
  then have "suffix [a, b] (ys @ [c]) \<longleftrightarrow> ys \<noteq> [] \<and> last ys = a \<and> c = b"
    by (auto simp: suffix_single)
  then show ?thesis
    using sublist_snoc [of "[a, b]" ys c] by auto
qed

lemma plain_snoc:
  "plain cur \<Longrightarrow> \<not> is_punct c \<Longrightarrow> \<not> is_space c \<Longrightarrow>
   \<not> (cur \<noteq> [] \<and> last cur = 45 \<and> c = 45) \<Longrightarrow> plain (cur @ [c])"
  unfolding plain_def sublist_pair_snoc by auto

lemma re_split_kinds:
  "plain cur \<Longrightarrow> \<not> (cur \<noteq> [] \<and> last cur = 45 \<and> body \<noteq> [] \<and> hd body = 45) \<Longrightarrow>
   p \<in> set (re_split cur body) \<Longrightarrow>
   plain p \<or> (\<exists>c. p = [c] \<and> (is_punct c \<or> is_space c)) \<or> p = [45, 45]"
proof (induction cur body rule: re_split.induct)
  case (1 cur)
  then show ?case by simp
next
  case (2 cur c)
  have e: "plain []" by (simp add: plain_def)
  show ?case
  proof (cases "is_punct c \<or> is_space c")
    case True
    with 2 e show ?thesis by (auto split: if_splits)
  next
    case False
    with 2 have "plain (cur @ [c])" by (intro plain_snoc) auto
    with 2 False show ?thesis by auto
  qed
next
  case (3 cur c d cs)
  have e: "plain []" by (simp add: plain_def)
  show ?case
  proof (cases "is_punct c \<or> (c = 45 \<and> d = 45) \<or> is_space c")
    case True
    with 3 e show ?thesis by (auto split: if_splits)
  next
    case False
    with "3.prems" have pl: "plain (cur @ [c])" by (intro plain_snoc) auto
    from False have "\<not> (cur @ [c] \<noteq> [] \<and> last (cur @ [c]) = 45 \<and> d # cs \<noteq> [] \<and> hd (d # cs) = 45)"
      by auto
    with "3.IH"(4) [OF _ _ _ pl] False "3.prems"(3) show ?thesis by auto
  qed
qed

lemma concat_re_split: "concat (re_split cur body) = cur @ body"
  by (induction cur body rule: re_split.induct) auto

lemma strip_piece:
  assumes "p \<in> set (re_split [] body)"
  shows "strip p = filter (\<lambda>c. \<not> is_space c) p"
proof -
  have "plain []" by (simp add: plain_def)
  from re_split_kinds [OF this _ assms]
  consider "plain p" | c where "p = [c]" "is_punct c" | c where "p = [c]" "is_space c" | "p = [45, 45]"
    by auto
  then show ?thesis
  proof cases
    case 1
    then have a: "\<forall>c\<in>set p. \<not> is_space c" by (simp add: plain_def)
    then have "filter (\<lambda>c. \<not> is_space c) p = p" by simp
    with strip_no_space [OF a] show ?thesis by simp
  next
    case 2
    then show ?thesis using punct_not_space [of c] by (simp add: strip_no_space)
  next
    case 3
    then show ?thesis by (simp add: strip_space)
  next
    case 4
    then show ?thesis by (simp add: strip_def is_space_def)
  qed
qed

lemma concat_map_filter_nonempty:
  "concat (map f (filter (\<lambda>x. f x \<noteq> []) xs)) = concat (map f xs)"
  by (induction xs) auto

lemma concat_text_tokens: "concat (text_tokens body) = filter (\<lambda>c. \<not> is_space c) body"
proof -
  have "concat (text_tokens body) = concat (map strip (re_split [] body))"
    by (simp add: text_tokens_def concat_map_filter_nonempty)
  also have "map strip (re_split [] body) = map (filter (\<lambda>c. \<not> is_space c)) (re_split [] body)"
    by (rule map_cong) (simp_all add: strip_piece)
  also have "concat \<dots> = filter (\<lambda>c. \<not> is_space c) (concat (re_split [] body))"
    by (simp add: filter_concat)
  finally show ?thesis by (simp add: concat_re_split)
qed

lemma text_tokens_kinds:
  assumes "p \<in> set (text_tokens body)"
  shows "p \<noteq> [] \<and> (plain p \<or> (\<exists>c. p = [c] \<and> is_punct c) \<or> p = [45, 45])"
proof -
  from assms obtain q where q: "q \<in> set (re_split [] body)" and p: "p = strip q"
    and ne: "strip q \<noteq> []"
    by (auto simp: text_tokens_def)
  have "plain []" by (simp add: plain_def)
  from re_split_kinds [OF this _ q]
  consider "plain q" | c where "q = [c]" "is_punct c" | c where "q = [c]" "is_space c" | "q = [45, 45]"
    by auto
  then show ?thesis
  proof cases
    case 1
    then have "strip q = q" by (simp add: plain_def strip_no_space)
    with 1 p ne show ?thesis by simp
  next
    case 2
    then have "strip q = q" using punct_not_space [of c] by (simp add: strip_no_space)
    with 2 p ne show ?thesis by simp
  next
    case 3
    with ne show ?thesis by (simp add: strip_space)
  next
    case 4
    then have "strip q = q" by (simp add: strip_def is_space_def)
    with 4 p ne show ?thesis by simp
  qed
qed

subsection \<open>The segmenter cuts at the delimiters and nowhere else\<close>

lemma hyphen_no_delimiter: "\<not> is_punct 45" "\<not> is_space 45"
  by (simp_all add: is_punct_def is_space_def)

lemma punct_not_hyphen: "is_punct c \<or> is_space c \<Longrightarrow> c \<noteq> 45"
  using hyphen_no_delimiter by auto

lemma re_split_single:
  "is_punct c \<or> is_space c \<Longrightarrow>
   re_split cur (u @ c # v) = re_split cur u @ [c] # re_split [] v"
proof (induction cur u rule: re_split.induct)
  case (1 cur)
  then show ?case by (cases v) (auto simp: hyphen_no_delimiter)
next
  case (2 cur x)
  then have "c \<noteq> 45" by (rule punct_not_hyphen)
  with 2 show ?case by (cases v) auto
next
  case (3 cur x y us)
  then show ?case by auto
qed

lemma re_split_hyphens:
  "u = [] \<or> last u \<noteq> 45 \<Longrightarrow>
   re_split cur (u @ 45 # 45 # v) = re_split cur u @ [45, 45] # re_split [] v"
proof (induction cur u rule: re_split.induct)
  case (1 cur)
  then show ?case by (simp add: hyphen_no_delimiter)
next
  case (2 cur x)
  then show ?case by (auto simp: hyphen_no_delimiter)
next
  case (3 cur x y us)
  then show ?case by (auto split: if_splits)
qed

lemma plain_Cons: "plain (c # r) \<Longrightarrow> plain r"
  by (auto simp: plain_def sublist_Cons_right)

lemma plain_head:
  "plain (c # d # r) \<Longrightarrow> \<not> is_punct c \<and> \<not> is_space c \<and> \<not> (c = 45 \<and> d = 45)"
proof -
  assume p: "plain (c # d # r)"
  have "sublist [45, 45] (45 # 45 # r)"
    using sublist_append_rightI [of "[45, 45]" r] by simp
  with p show ?thesis by (auto simp: plain_def)
qed

lemma re_split_plain: "plain r \<Longrightarrow> re_split cur r = [cur @ r]"
proof (induction cur r rule: re_split.induct)
  case (1 cur)
  then show ?case by simp
next
  case (2 cur c)
  then show ?case by (simp add: plain_def)
next
  case (3 cur c d cs)
  from plain_head [OF "3.prems"] plain_Cons [OF "3.prems"] "3.IH"(4)
  show ?case by simp
qed

lemma text_tokens_Nil: "text_tokens [] = []"
  by (simp add: text_tokens_def strip_def)

lemma text_tokens_plain: "plain r \<Longrightarrow> r \<noteq> [] \<Longrightarrow> text_tokens r = [r]"
proof -
  assume p: "plain r" and n: "r \<noteq> []"
  from p have "strip r = r" by (simp add: plain_def strip_no_space)
  with n show ?thesis by (simp add: text_tokens_def re_split_plain [OF p])
qed

lemma text_tokens_punct:
  "is_punct c \<Longrightarrow> text_tokens (u @ c # v) = text_tokens u @ [c] # text_tokens v"
proof -
  assume c: "is_punct c"
  then have "strip [c] = [c]" using punct_not_space [of c] by (simp add: strip_no_space)
  with c show ?thesis by (simp add: text_tokens_def re_split_single)
qed

lemma text_tokens_space:
  "is_space c \<Longrightarrow> text_tokens (u @ c # v) = text_tokens u @ text_tokens v"
  by (simp add: text_tokens_def re_split_single strip_space)

lemma text_tokens_hyphens:
  "u = [] \<or> last u \<noteq> 45 \<Longrightarrow>
   text_tokens (u @ 45 # 45 # v) = text_tokens u @ [45, 45] # text_tokens v"
proof -
  assume u: "u = [] \<or> last u \<noteq> 45"
  have "strip [45, 45] = [45, 45]" by (simp add: strip_def is_space_def)
  then show ?thesis by (simp add: text_tokens_def re_split_hyphens [OF u])
qed

lemma cuts_text_tokens: "cuts_at_delimiters text_tokens"
  unfolding cuts_at_delimiters_def
  using text_tokens_Nil text_tokens_plain text_tokens_punct text_tokens_space text_tokens_hyphens
  by blast

lemma plain_Nil: "plain []"
  by (simp add: plain_def)

lemma plain_butlast: "plain (r @ [c]) \<Longrightarrow> plain r"
  by (auto simp: plain_def sublist_pair_snoc)

lemma first_delimiter:
  "\<not> plain r \<Longrightarrow>
   \<exists>u d v. r = u @ d @ v \<and> plain u \<and>
     ((\<exists>c. d = [c] \<and> (is_punct c \<or> is_space c)) \<or>
      (d = [45, 45] \<and> (u = [] \<or> last u \<noteq> 45)))"
proof (induction r rule: rev_induct)
  case Nil
  then show ?case by (simp add: plain_Nil)
next
  case (snoc c ys)
  show ?case
  proof (cases "plain ys")
    case False
    from snoc.IH [OF this] obtain u d v where
      "ys = u @ d @ v" and "plain u" and
      "(\<exists>c. d = [c] \<and> (is_punct c \<or> is_space c)) \<or>
        (d = [45, 45] \<and> (u = [] \<or> last u \<noteq> 45))"
      by blast
    then show ?thesis
      by (intro exI [of _ u] exI [of _ d] exI [of _ "v @ [c]"]) simp
  next
    case True
    show ?thesis
    proof (cases "is_punct c \<or> is_space c")
      case True
      with \<open>plain ys\<close> show ?thesis
        by (intro exI [of _ ys] exI [of _ "[c]"] exI [of _ "[]"]) simp
    next
      case False
      with snoc.prems True have "ys \<noteq> [] \<and> last ys = 45 \<and> c = 45"
        using plain_snoc [of ys c] by blast
      then obtain zs where ys: "ys = zs @ [45]" and c: "c = 45"
        by (metis append_butlast_last_id)
      from True ys have pz: "plain zs" using plain_butlast by blast
      from True ys have "\<not> sublist [45, 45] (zs @ [45])" by (simp add: plain_def)
      then have "zs = [] \<or> last zs \<noteq> 45" by (simp add: sublist_pair_snoc)
      with pz ys c show ?thesis
        by (intro exI [of _ zs] exI [of _ "[45, 45]"] exI [of _ "[]"]) simp
    qed
  qed
qed

lemma cuts_unique:
  assumes g: "cuts_at_delimiters g"
  shows "g r = text_tokens r"
proof (induction r rule: length_induct)
  case (1 r)
  note h = cuts_text_tokens
  show ?case
  proof (cases "plain r")
    case True
    show ?thesis
    proof (cases "r = []")
      case True
      with g h show ?thesis by (simp add: cuts_at_delimiters_def)
    next
      case False
      with True g h show ?thesis by (simp add: cuts_at_delimiters_def)
    qed
  next
    case False
    from first_delimiter [OF this] obtain u d v where
      r: "r = u @ d @ v" and pu: "plain u" and
      d: "(\<exists>c. d = [c] \<and> (is_punct c \<or> is_space c)) \<or>
        (d = [45, 45] \<and> (u = [] \<or> last u \<noteq> 45))"
      by blast
    from d have "d \<noteq> []" by auto
    with r have "length v < length r" by simp
    with 1 have v: "g v = text_tokens v" by blast
    have u: "g u = text_tokens u"
    proof (cases "u = []")
      case True
      with g h show ?thesis by (simp add: cuts_at_delimiters_def)
    next
      case False
      with pu g h show ?thesis by (simp add: cuts_at_delimiters_def)
    qed
    from d consider c where "d = [c]" "is_punct c" | c where "d = [c]" "is_space c"
      | "d = [45, 45]" "u = [] \<or> last u \<noteq> 45"
      by blast
    then show ?thesis
    proof cases
      case 1
      with g have "g (u @ c # v) = g u @ [c] # g v" by (simp add: cuts_at_delimiters_def)
      moreover from 1 have "text_tokens (u @ c # v) = text_tokens u @ [c] # text_tokens v"
        by (simp add: text_tokens_punct)
      ultimately show ?thesis using r 1 u v by simp
    next
      case 2
      with g have "g (u @ c # v) = g u @ g v" by (simp add: cuts_at_delimiters_def)
      moreover from 2 have "text_tokens (u @ c # v) = text_tokens u @ text_tokens v"
        by (simp add: text_tokens_space)
      ultimately show ?thesis using r 2 u v by simp
    next
      case 3
      with g have "g (u @ 45 # 45 # v) = g u @ [45, 45] # g v"
        unfolding cuts_at_delimiters_def by blast
      moreover from 3 have "text_tokens (u @ 45 # 45 # v) = text_tokens u @ [45, 45] # text_tokens v"
        by (simp add: text_tokens_hyphens)
      ultimately show ?thesis using r 3 u v by simp
    qed
  qed
qed

section \<open>Decoding and the registry\<close>

lemma run_init_sync:
  "run calls (init f) = Inr (t, f', log) \<Longrightarrow> in_sync t"
proof -
  assume r: "run calls (init f) = Inr (t, f', log)"
  obtain t0 f0 where i: "init f = (t0, f0)" by (cases "init f")
  have "in_sync t0" using in_sync_init [of f] i by simp
  from run_sync [OF this, of calls f0] r i show ?thesis by auto
qed

lemma decode_in_sync:
  "in_sync t \<Longrightarrow>
   decode t token_ids =
     concat (map (\<lambda>i. if 0 \<le> i \<and> i < int (length (vocab t)) then vocab t ! nat i else UNK)
       token_ids)"
proof -
  assume "in_sync t"
  then have "id_to_token t = id_to_token_of (vocab t)" by (simp add: in_sync_def)
  then have "(case id_to_token t i of Some token \<Rightarrow> token | None \<Rightarrow> str ''[UNK]'') =
      (if 0 \<le> i \<and> i < int (length (vocab t)) then vocab t ! nat i else UNK)" for i
    by (simp add: id_to_token_of_eq UNK_def)
  then show ?thesis by (simp add: decode_def)
qed

lemma map_of_B: "map_of TOKENIZERS (str ''B'') = Some Basic"
  by (simp add: TOKENIZERS_def str_def)




text \<open>The definitions that a run on concrete input unfolds.\<close>

lemmas eval_defs =
  init_def special_tokens_def empty_tokenizer_def append_token_def Let_def
  save_vocab_def encode_def framed_def text_tokens_def strip_def is_space_def is_punct_def
  str_def BOS_def EOS_def UNK_def token_to_id_of_def id_to_token_of_def enumerate_py_def dom_def
  upt_rec decode_def

section \<open>The claims\<close>

text \<open>
  Counterexample to claim C1 as it is stated. \<open>__init__\<close> loads an existing vocabulary
  file as it is. From a file that lists \<open>a\<close> twice, the token at index 0 has id 1 and
  occupies two positions; this stays so after an \<open>encode\<close> and a \<open>decode\<close>.
\<close>

theorem repeated_token_file_counterexample:
  "(case run [Encode (str ''a'') True, Decode [0]] (init (Some [str ''a'', str ''a''])) of
      Inl e \<Rightarrow> False
    | Inr (t, f', log) \<Rightarrow>
        vocab t = [str ''a'', str ''a'', BOS, EOS] \<and>
        token_to_id t (vocab t ! 0) = Some 1 \<and>
        \<not> distinct (vocab t) \<and>
        \<not> vocabulary_invariant t)"
  by (simp add: vocabulary_invariant_def eval_defs)

text \<open>
  Claim C1, amended. Whatever calls a process makes (construct, encode with either flag,
  decode), starting from no vocabulary file or from one without a repeated token (as
  every file that the tokenizer writes is), every call returns, and afterwards the token
  at each valid index \<open>i\<close> has id \<open>i\<close>, the ids are exactly \<open>0\<close> to
  \<open>len(vocab) - 1\<close>, and no token is listed twice; the file stays without a repeated
  token. A further \<open>encode\<close> only appends to the list, so ids are given in the order of
  insertion, and the invariant holds after it too.
\<close>

theorem vocabulary_invariant_holds:
  "fs_wf f \<Longrightarrow>
   \<exists>t f' log. run calls (init f) = Inr (t, f', log) \<and> vocabulary_invariant t \<and> fs_wf f' \<and>
     (\<forall>text update. \<exists>token_ids t' f''.
        encode t f' text update = Inr (token_ids, t', f'') \<and>
        prefix (vocab t) (vocab t') \<and> vocabulary_invariant t')"
proof -
  assume w: "fs_wf f"
  obtain t0 f0 where i: "init f = (t0, f0)" by (cases "init f")
  have s0: "in_sync t0" using in_sync_init [of f] i by simp
  have w0: "distinct (vocab t0) \<and> fs_wf f0"
    using init_wf [OF w] i by simp
  from run_sync [OF s0, of calls f0] w0
  obtain t f' log where r: "run calls (t0, f0) = Inr (t, f', log)" and s: "in_sync t"
    and d: "distinct (vocab t)" and w': "fs_wf f'"
    by auto
  have "\<exists>token_ids t' f''. encode t f' body update = Inr (token_ids, t', f'') \<and>
      prefix (vocab t) (vocab t') \<and> vocabulary_invariant t'" for body update
    using encode_sync [OF s, of f' body update] d in_sync_invariant by blast
  with r s d w' show ?thesis
    using i in_sync_invariant by auto
qed

theorem vocabulary_invariant_holds_witness:
  "fs_wf None \<and>
   (\<exists>t f' log.
      run [Encode (str ''hi'') True, Decode [0, 2, 1], Construct, Encode (str ''hi there'') False]
        (init None) = Inr (t, f', log) \<and>
      vocabulary_invariant t \<and> fs_wf f')"
  using vocabulary_invariant_holds [of None
    "[Encode (str ''hi'') True, Decode [0, 2, 1], Construct, Encode (str ''hi there'') False]"]
  by (auto simp: fs_wf_def)


text \<open>
  Claim C2. \<open>save_vocab\<close> writes the list as it is, in the order of the ids, and a
  tokenizer constructed from that file has the same list and leaves the file as it is.
  For an instance whose vocabulary satisfies the invariant (a well-formed vocabulary), the
  constructed tokenizer is the same instance: the two dictionaries come back as well, and
  the entry at position \<open>i\<close> of the file is the token with id \<open>i\<close>.
\<close>

theorem vocabulary_round_trip:
  "save_vocab t = Some (vocab t) \<and>
   vocab (fst (init (save_vocab t))) = vocab t \<and>
   snd (init (save_vocab t)) = save_vocab t \<and>
   (vocabulary_invariant t \<longrightarrow>
      fst (init (save_vocab t)) = t \<and>
      (\<forall>content i. save_vocab t = Some content \<and> i < length content \<longrightarrow>
         token_to_id (fst (init (save_vocab t))) (content ! i) = Some (int i)))"
proof -
  have a: "save_vocab t = Some (vocab t)"
    by (simp add: save_vocab_def)
  have b: "vocab (fst (init (Some (vocab t)))) = vocab t"
    and c: "snd (init (Some (vocab t))) = Some (vocab t)"
    by (simp_all add: init_def)
  have d: "fst (init (Some (vocab t))) = t \<and>
      (\<forall>i<length (vocab t). token_to_id t (vocab t ! i) = Some (int i))"
    if v: "vocabulary_invariant t"
  proof -
    from v have "in_sync t" by (rule invariant_in_sync)
    then have "init (Some (vocab t)) = (t, Some (vocab t))"
      by (rule init_in_sync)
    with v show ?thesis
      by (simp add: vocabulary_invariant_def)
  qed
  from a b c d show ?thesis by auto
qed

theorem vocabulary_round_trip_witness:
  "vocabulary_invariant (fst (init None)) \<and>
   save_vocab (fst (init None)) = Some [BOS, EOS] \<and>
   init (Some [BOS, EOS]) = (fst (init None), Some [BOS, EOS])"
proof -
  have s: "save_vocab (fst (init None)) = Some [BOS, EOS]"
    by (simp add: save_vocab_def vocab_init_None)
  from vocabulary_round_trip [of "fst (init None)"] init_None_invariant
  have "fst (init (save_vocab (fst (init None)))) = fst (init None)"
    and "snd (init (save_vocab (fst (init None)))) = save_vocab (fst (init None))"
    by blast+
  then have "init (Some [BOS, EOS]) = (fst (init None), Some [BOS, EOS])"
    by (simp only: s prod_eq_iff fst_conv snd_conv)
  with s init_None_invariant show ?thesis
    by simp
qed

text \<open>
  Counterexample to claim C3 as it is stated. An instance made on a fresh store encodes
  \<open>"a b"\<close> with \<open>vocab_update=False\<close>: \<open>b\<close> gets id 3 and nothing is written. A
  second instance, constructed as the lambdas of \<open>B\<close> do, then encodes \<open>"b"\<close>: it
  reads the file, which holds the two markers only, and gives \<open>b\<close> the id 2.
\<close>

theorem ids_unstable_counterexample:
  "(case run [Encode (str ''a b'') False, Construct, Encode (str ''b'') True] (init None) of
      Inl e \<Rightarrow> False
    | Inr (t, f, log) \<Rightarrow>
        log = [(BOS, 0), (str ''a'', 2), (str ''b'', 3), (EOS, 1),
               (BOS, 0), (str ''b'', 2), (EOS, 1)])"
  by (simp add: eval_defs)

text \<open>
  Claim C3, amended. In a process that makes all its calls on one instance (each with
  either flag), or that passes \<open>vocab_update=True\<close> in every \<open>encode\<close> while it
  constructs a new instance whenever it likes (as the registry's \<open>B\<close> does, one
  instance in use at a time), every call returns and no token is ever given two ids: in
  the log of all tokens encoded with their ids, a token has one id.
\<close>

theorem stable_ids:
  "one_instance calls \<or> always_update calls \<Longrightarrow>
   \<exists>t f' log. run calls (init f) = Inr (t, f', log) \<and>
     (\<forall>token i j. (token, i) \<in> set log \<and> (token, j) \<in> set log \<longrightarrow> i = j)"
proof -
  assume a: "one_instance calls \<or> always_update calls"
  obtain t0 f0 where i: "init f = (t0, f0)" by (cases "init f")
  have s0: "in_sync t0" using in_sync_init [of f] i by simp
  have "f0 = Some (vocab t0)" using file_init [of f] i by simp
  with a have "one_instance calls \<or> (f0 = Some (vocab t0) \<and> always_update calls)"
    by simp
  from run_log [OF s0 this]
  obtain t f' log where r: "run calls (t0, f0) = Inr (t, f', log)"
    and l: "\<forall>token i. (token, i) \<in> set log \<longrightarrow> token_to_id t token = Some i"
    by auto
  from l have "\<forall>token i j. (token, i) \<in> set log \<and> (token, j) \<in> set log \<longrightarrow> i = j"
    by (metis option.inject)
  with r i show ?thesis by simp
qed

theorem stable_ids_witness:
  "always_update [Construct, Encode (str ''a b'') True, Construct, Encode (str ''b'') True] \<and>
   (\<exists>t f' log.
      run [Construct, Encode (str ''a b'') True, Construct, Encode (str ''b'') True] (init None) =
        Inr (t, f', log) \<and>
      (\<forall>token i j. (token, i) \<in> set log \<and> (token, j) \<in> set log \<longrightarrow> i = j))"
  using stable_ids [of "[Construct, Encode (str ''a b'') True, Construct, Encode (str ''b'') True]" None]
  by (simp add: always_update_def)

text \<open>
  Claim C4. On a store with no vocabulary file, the first \<open>encode("hi")\<close> through the
  registry returns \<open>[0, 2, 1]\<close>: construction gives the begin marker id 0 and the end
  marker id 1, \<open>hi\<close> is one piece and gets id 2; the file then holds the three tokens.
\<close>

theorem fresh_encode_hi:
  "encode_text x None (str ''hi'') (str ''B'') = (Inr [0, 2, 1], Some [BOS, EOS, str ''hi'']) \<and>
   vocab (fst (init None)) = [BOS, EOS] \<and>
   token_to_id (fst (init None)) BOS = Some 0 \<and>
   token_to_id (fst (init None)) EOS = Some 1 \<and>
   text_tokens (str ''hi'') = [str ''hi''] \<and>
   (case encode (fst (init None)) (snd (init None)) (str ''hi'') True of
      Inl e \<Rightarrow> False
    | Inr (token_ids, t, f) \<Rightarrow>
        token_ids = [0, 2, 1] \<and> token_to_id t (str ''hi'') = Some 2 \<and>
        vocab t = [BOS, EOS, str ''hi''])"
  by (simp add: encode_text_def TOKENIZERS_def eval_defs)

text \<open>
  Counterexample to claim C5 as it is stated: the markers contain no delimiter, so a text
  that spells one out yields it as a piece.
\<close>

theorem marker_segment_counterexample:
  "text_tokens (str ''<|BOS|>'') = [BOS] \<and>
   text_tokens (str ''the <|EOS|> mark'') = [str ''the'', EOS, str ''mark'']"
  by (simp add: eval_defs)

text \<open>
  Claim C5, amended. Every piece is a contiguous part of the text, so a marker is no piece
  of a text in which its spelling does not occur.
\<close>

theorem markers_not_segments:
  "(\<not> sublist BOS text \<longrightarrow> BOS \<notin> set (text_tokens text)) \<and>
   (\<not> sublist EOS text \<longrightarrow> EOS \<notin> set (text_tokens text))"
  using text_tokens_sublist by blast

theorem markers_not_segments_witness:
  "\<not> sublist BOS (str ''Hello, world!'') \<and> BOS \<notin> set (text_tokens (str ''Hello, world!'')) \<and>
   \<not> sublist EOS (str ''Hello, world!'') \<and> EOS \<notin> set (text_tokens (str ''Hello, world!''))"
proof -
  have b: "\<not> sublist BOS (str ''Hello, world!'')"
  proof
    assume "sublist BOS (str ''Hello, world!'')"
    then have "set BOS \<subseteq> set (str ''Hello, world!'')" by (rule set_mono_sublist)
    then show False by (simp add: BOS_def str_def)
  qed
  have e: "\<not> sublist EOS (str ''Hello, world!'')"
  proof
    assume "sublist EOS (str ''Hello, world!'')"
    then have "set EOS \<subseteq> set (str ''Hello, world!'')" by (rule set_mono_sublist)
    then show False by (simp add: EOS_def str_def)
  qed
  from b e markers_not_segments [of "str ''Hello, world!''"] show ?thesis by simp
qed

text \<open>
  Counterexample to claim C6 as it is stated: with no vocabulary file, a decode through
  the registry's \<open>B\<close> constructs a tokenizer, and the constructor writes the initial
  vocabulary to the file.
\<close>

theorem decode_writes_counterexample:
  "decode_text offline None [0] (str ''B'') = (Inr BOS, Some [BOS, EOS])"
  by (simp add: decode_text_def TOKENIZERS_def eval_defs)

text \<open>
  Claim C6, amended. The method \<open>decode\<close> leaves the instance and the file as they are.
  A decode through the registry's \<open>B\<close> leaves an existing vocabulary file as it is;
  when there is none, the constructor it calls writes the two markers to the file.
\<close>

theorem decode_frame:
  "run (Decode token_ids # calls) (t, f) = run calls (t, f) \<and>
   run [Decode token_ids] (t, f) = Inr (t, f, []) \<and>
   snd (decode_text x (Some content) token_ids (str ''B'')) = Some content \<and>
   snd (decode_text x None token_ids (str ''B'')) = Some [BOS, EOS]"
proof -
  have m: "map_of TOKENIZERS (str ''B'') = Some Basic"
    by (simp add: TOKENIZERS_def str_def)
  show ?thesis
    using file_init [of None] vocab_init_None
    by (simp add: decode_text_def m split_beta) (simp add: init_def)
qed

theorem decode_frame_witness:
  "run [Decode [0, 7]] (fst (init None), Some [BOS, EOS]) =
     Inr (fst (init None), Some [BOS, EOS], []) \<and>
   decode_text offline (Some [str ''x'']) [0, 7] (str ''B'') =
     (Inr (str ''x[UNK]''), Some [str ''x''])"
proof -
  have "fst (decode_text offline (Some [str ''x'']) [0, 7] (str ''B'')) = Inr (str ''x[UNK]'')"
    by (simp add: decode_text_def TOKENIZERS_def eval_defs)
  with decode_frame [of "[0, 7]" "[]" "fst (init None)" "Some [BOS, EOS]" offline "[str ''x'']"]
  show ?thesis by (simp add: prod_eq_iff)
qed

text \<open>
  Claim C7. \<open>"Hello, world!"\<close> is split into \<open>Hello\<close>, the comma, \<open>world\<close> and the
  exclamation mark. For every text, the pieces joined are the text without its
  whitespace, in its order; each piece is non-empty, contains no whitespace (so that
  stripping leaves it as it is), is a contiguous part of the text, and is either one
  character of the class, or the two hyphens, or a piece with no delimiter in it.
  Every delimiter is a cut and is kept as a piece of its own, unless it is whitespace:
  the pieces of a text with a character of the class in it are the pieces before it, the
  character, and the pieces after it; at a whitespace character they are the pieces
  before and the pieces after; at two hyphens (that the scan reaches, so not after a
  hyphen) they are the pieces before, the two hyphens, and the pieces after. Nothing else
  is a cut: a non-empty text with no delimiter in it is one piece. These equations fix
  the segmenter: a function that satisfies them is \<open>text_tokens\<close>.
\<close>

theorem segmenter_shape:
  "text_tokens (str ''Hello, world!'') = [str ''Hello'', str '','', str ''world'', str ''!''] \<and>
   concat (text_tokens text) = filter (\<lambda>c. \<not> is_space c) text \<and>
   (\<forall>p\<in>set (text_tokens text).
      p \<noteq> [] \<and> strip p = p \<and> (\<forall>c\<in>set p. \<not> is_space c) \<and> sublist p text \<and>
      (plain p \<or> (\<exists>c. p = [c] \<and> is_punct c) \<or> p = [45, 45])) \<and>
   text_tokens [] = [] \<and>
   (plain r \<and> r \<noteq> [] \<longrightarrow> text_tokens r = [r]) \<and>
   (is_punct c \<longrightarrow> text_tokens (u @ c # v) = text_tokens u @ [c] # text_tokens v) \<and>
   (is_space c \<longrightarrow> text_tokens (u @ c # v) = text_tokens u @ text_tokens v) \<and>
   (u = [] \<or> last u \<noteq> 45 \<longrightarrow>
      text_tokens (u @ 45 # 45 # v) = text_tokens u @ [45, 45] # text_tokens v) \<and>
   (cuts_at_delimiters g \<longrightarrow> g = text_tokens)"
proof -
  have ex: "text_tokens (str ''Hello, world!'') = [str ''Hello'', str '','', str ''world'', str ''!'']"
    by (simp add: eval_defs)
  have sp: "\<forall>c\<in>set p. \<not> is_space c" if "p \<in> set (text_tokens text)" for p
  proof -
    have "set p \<subseteq> set (concat (text_tokens text))" using that by auto
    then show ?thesis by (auto simp: concat_text_tokens)
  qed
  have "p \<noteq> [] \<and> strip p = p \<and> (\<forall>c\<in>set p. \<not> is_space c) \<and> sublist p text \<and>
      (plain p \<or> (\<exists>c. p = [c] \<and> is_punct c) \<or> p = [45, 45])"
    if "p \<in> set (text_tokens text)" for p
    using text_tokens_kinds [OF that] sp [OF that] text_tokens_sublist [OF that]
      strip_no_space [OF sp [OF that]]
    by simp
  then have pieces: "\<forall>p\<in>set (text_tokens text).
      p \<noteq> [] \<and> strip p = p \<and> (\<forall>c\<in>set p. \<not> is_space c) \<and> sublist p text \<and>
      (plain p \<or> (\<exists>c. p = [c] \<and> is_punct c) \<or> p = [45, 45])"
    by blast
  have uniq: "cuts_at_delimiters g \<longrightarrow> g = text_tokens"
    using cuts_unique [of g] by auto
  from ex pieces uniq show ?thesis
    using concat_text_tokens [of "text"] text_tokens_Nil text_tokens_plain [of r]
      text_tokens_punct [of c u v] text_tokens_space [of c u v] text_tokens_hyphens [of u v]
    by simp
qed

theorem segmenter_shape_witness:
  "text_tokens (str ''a--b, c'') = [str ''a'', str ''--'', str ''b'', str '','', str ''c''] \<and>
   concat (text_tokens (str ''a--b, c'')) = str ''a--b,c'' \<and>
   plain (str ''ab'') \<and> text_tokens (str ''ab'') = [str ''ab''] \<and>
   is_punct 44 \<and>
   text_tokens (str ''a--b'' @ 44 # str '' c'') =
     text_tokens (str ''a--b'') @ [44] # text_tokens (str '' c'') \<and>
   is_space 32 \<and>
   text_tokens (str ''x'' @ 32 # str ''y'') = text_tokens (str ''x'') @ text_tokens (str ''y'') \<and>
   last (str ''a'') \<noteq> 45 \<and>
   text_tokens (str ''a'' @ 45 # 45 # str ''b'') =
     text_tokens (str ''a'') @ [45, 45] # text_tokens (str ''b'') \<and>
   cuts_at_delimiters text_tokens"
proof -
  have p: "plain (str ''ab'')"
    by (simp add: plain_def str_def is_punct_def is_space_def sublist_Cons_right)
  have c: "is_punct 44" and s: "is_space 32" and l: "last (str ''a'') \<noteq> 45"
    by (simp_all add: is_punct_def is_space_def str_def)
  have n: "str ''ab'' \<noteq> []" by (simp add: str_def)
  have e: "text_tokens (str ''a--b, c'') = [str ''a'', str ''--'', str ''b'', str '','', str ''c'']"
    by (simp add: eval_defs)
  have f: "filter (\<lambda>c. \<not> is_space c) (str ''a--b, c'') = str ''a--b,c''"
    by (simp add: str_def is_space_def)
  from segmenter_shape [of "str ''a--b, c''" "str ''ab''" 44 "str ''a--b''" "str '' c''" text_tokens]
    segmenter_shape [of "[]" "[]" 32 "str ''x''" "str ''y''" text_tokens]
    segmenter_shape [of "[]" "[]" 32 "str ''a''" "str ''b''" text_tokens]
    p c s l n e f cuts_text_tokens
  show ?thesis by simp
qed

text \<open>
  Claim C8. In every state a process reaches, \<open>decode\<close> joins, for each id, the token at
  that index of the list, or \<open>[UNK]\<close> when the id is negative or not below the length
  of the list; \<open>decode([999])\<close> on a vocabulary of fewer than 1000 tokens is
  \<open>[UNK]\<close>. Through the registry, decoding with \<open>B\<close> returns a string for every list
  of ids and every state of the file.
\<close>

theorem decode_unknown_id:
  "run calls (init f) = Inr (t, f', log) \<Longrightarrow>
   decode t token_ids =
     concat (map (\<lambda>i. if 0 \<le> i \<and> i < int (length (vocab t)) then vocab t ! nat i else UNK)
       token_ids) \<and>
   (length (vocab t) < 1000 \<longrightarrow> decode t [999] = UNK) \<and>
   fst (decode_text x g token_ids (str ''B'')) = Inr (decode (fst (init g)) token_ids) \<and>
   (\<forall>content. g = Some content \<and> length content < 1000 \<longrightarrow>
      fst (decode_text x g [999] (str ''B'')) = Inr UNK)"
proof -
  assume r: "run calls (init f) = Inr (t, f', log)"
  then have s: "in_sync t" by (rule run_init_sync)
  have d: "fst (decode_text x h ids (str ''B'')) = Inr (decode (fst (init h)) ids)" for h ids
    by (simp add: decode_text_def map_of_B split_beta)
  have "decode (fst (init (Some content))) [999] = UNK" if "length content < 1000" for content
    using that decode_in_sync [OF in_sync_init, of "Some content" "[999]"]
    by (simp add: init_def)
  with d have "\<forall>content. g = Some content \<and> length content < 1000 \<longrightarrow>
      fst (decode_text x g [999] (str ''B'')) = Inr UNK"
    by simp
  with d decode_in_sync [OF s] show ?thesis by simp
qed

theorem decode_unknown_id_witness:
  "(case run [Encode (str ''hi'') True] (init None) of
      Inl e \<Rightarrow> False
    | Inr (t, f', log) \<Rightarrow>
        decode t [999] = UNK \<and>
        decode t [0, 999, 2, - 1, 1] = BOS @ UNK @ str ''hi'' @ UNK @ EOS \<and>
        fst (decode_text offline f' [999] (str ''B'')) = Inr UNK)"
proof -
  obtain t f' log where r: "run [Encode (str ''hi'') True] (init None) = Inr (t, f', log)"
    and v: "vocab t = [BOS, EOS, str ''hi'']" and f: "f' = Some [BOS, EOS, str ''hi'']"
    by (simp add: eval_defs)
  from decode_unknown_id [OF r, of "[999]" offline f']
    decode_unknown_id [OF r, of "[0, 999, 2, - 1, 1]" offline f'] v f r
  show ?thesis
    by simp
qed



text \<open>
  Claim C10. In every state a process reaches, from any vocabulary file, \<open>encode\<close>
  returns one id for each framed piece, each id is a valid index of the list as it is
  after the call and a key of \<open>id_to_token\<close>, and decoding the ids on the instance after
  the call gives the framed pieces joined: no id is replaced by \<open>[UNK]\<close>.
\<close>

theorem encode_ids_valid:
  "run calls (init f) = Inr (t, f1, log) \<Longrightarrow>
   \<exists>token_ids t' f'.
     encode t f1 text update = Inr (token_ids, t', f') \<and>
     length token_ids = length (framed text) \<and>
     (\<forall>i\<in>set token_ids.
        0 \<le> i \<and> i < int (length (vocab t')) \<and> id_to_token t' i = Some (vocab t' ! nat i)) \<and>
     decode t' token_ids = concat (framed text)"
proof -
  assume r: "run calls (init f) = Inr (t, f1, log)"
  then have s: "in_sync t" by (rule run_init_sync)
  from encode_sync [OF s, of f1 "text" update]
  obtain ids t' where
    e: "encode t f1 text update =
          Inr (ids, t', if update \<and> vocab t' \<noteq> vocab t then Some (vocab t') else f1)"
    and s': "in_sync t'"
    and all2: "list_all2 (\<lambda>token i. token_to_id t' token = Some i) (framed text) ids"
    by auto
  from s' have m: "token_to_id t' = token_to_id_of (vocab t')"
    and im: "id_to_token t' = id_to_token_of (vocab t')"
    by (simp_all add: in_sync_def)
  have len: "length ids = length (framed text)"
    using all2 by (simp add: list_all2_lengthD)
  have all2': "list_all2 (\<lambda>token i. 0 \<le> i \<and> i < int (length (vocab t')) \<and>
      vocab t' ! nat i = token) (framed text) ids"
    using all2 unfolding m
    by (rule list_all2_mono) (rule token_to_id_of_Some)
  have valid: "\<forall>i\<in>set ids. 0 \<le> i \<and> i < int (length (vocab t')) \<and>
      id_to_token t' i = Some (vocab t' ! nat i)"
  proof
    fix i assume "i \<in> set ids"
    then obtain n where "n < length ids" and "ids ! n = i"
      by (auto simp: in_set_conv_nth)
    with all2' have "0 \<le> i \<and> i < int (length (vocab t'))"
      by (auto simp: list_all2_conv_all_nth)
    then show "0 \<le> i \<and> i < int (length (vocab t')) \<and> id_to_token t' i = Some (vocab t' ! nat i)"
      by (simp add: im id_to_token_of_eq)
  qed
  have "map (\<lambda>i. if 0 \<le> i \<and> i < int (length (vocab t')) then vocab t' ! nat i else UNK) ids =
      framed text"
    using all2' by (auto simp: list_all2_conv_all_nth intro: nth_equalityI)
  then have "decode t' ids = concat (framed text)"
    by (simp add: decode_in_sync [OF s'])
  with e len valid show ?thesis by blast
qed

theorem encode_ids_valid_witness:
  "run [] (init None) = Inr (fst (init None), snd (init None), []) \<and>
   (\<exists>token_ids t' f'.
      encode (fst (init None)) (snd (init None)) (str ''hi, you'') False = Inr (token_ids, t', f') \<and>
      length token_ids = 5 \<and>
      decode t' token_ids = str ''<|BOS|>hi,you<|EOS|>'')"
proof -
  have r: "run [] (init None) = Inr (fst (init None), snd (init None), [])"
    by (cases "init None") simp
  have f: "framed (str ''hi, you'') = [BOS, str ''hi'', str '','', str ''you'', EOS]"
    by (simp add: eval_defs)
  from encode_ids_valid [OF r, of "str ''hi, you''" False] r f show ?thesis
    by (auto simp: BOS_def EOS_def str_def)
qed

end
